theory Spec2Isabelle
  imports Complex_Main
begin

section \<open>Data model of the task allocation tester\<close>

text \<open>
  The class \<^verbatim>\<open>task\<close> of \<^verbatim>\<open>task_allocation_tester.py\<close>: a duty cycle (\<open>width\<close>), a power
  rating (\<open>height\<close>) and the placement written by a heuristic. Python numbers are modelled
  as unbounded integers. The list of tasks holds distinct objects (as \<^verbatim>\<open>generate_task\<close>
  builds it), so that writing \<^verbatim>\<open>tasks[i].start_time\<close> changes one entry of the list.
\<close>

record task =
  width :: int
  height :: int
  start_time :: int
  end_time :: int

text \<open>The constructor \<^verbatim>\<open>task.__init__\<close>: a new task is unplaced.\<close>

definition mk_task :: "int \<Rightarrow> int \<Rightarrow> task" where
  "mk_task w h = \<lparr>width = w, height = h, start_time = - 1, end_time = - 1\<rparr>"

datatype error = IndexError | ZeroDivisionError

section \<open>List operations of Python\<close>

text \<open>
  An index of a list of length \<open>n\<close>: a negative index counts from the end, and an index
  outside \<open>-n .. n-1\<close> raises \<^verbatim>\<open>IndexError\<close>.
\<close>

definition py_index :: "int \<Rightarrow> int \<Rightarrow> error + nat" where
  "py_index n i =
     (let j = (if i < 0 then n + i else i)
      in if 0 \<le> j \<and> j < n then Inr (nat j) else Inl IndexError)"

text \<open>The statement \<^verbatim>\<open>step_function[t] -= h\<close>.\<close>

definition sub_at :: "int list \<Rightarrow> int \<Rightarrow> int \<Rightarrow> error + int list" where
  "sub_at sf t h =
     (case py_index (int (length sf)) t of
        Inl e \<Rightarrow> Inl e
      | Inr j \<Rightarrow> Inr (sf[j := sf ! j - h]))"

text \<open>
  The loop \<^verbatim>\<open>for t in range(t, stop): step_function[t] -= h\<close>; the heuristics call it
  with \<open>t = t1\<close> and \<open>stop = t2 + 1\<close>.
\<close>

function sub_range :: "int \<Rightarrow> int \<Rightarrow> int \<Rightarrow> int list \<Rightarrow> error + int list" where
  "sub_range t stop h sf =
     (if t < stop
      then (case sub_at sf t h of
              Inl e \<Rightarrow> Inl e
            | Inr sf' \<Rightarrow> sub_range (t + 1) stop h sf')
      else Inr sf)"
  by pat_completeness auto
termination
  by (relation "measure (\<lambda>(t, stop, h, sf). nat (stop - t))") auto

declare sub_range.simps [simp del]

text \<open>The slices \<^verbatim>\<open>xs[b:]\<close> and \<^verbatim>\<open>xs[:b]\<close>; a negative bound counts from the end.\<close>

definition slice_from :: "'a list \<Rightarrow> int \<Rightarrow> 'a list" where
  "slice_from xs b = drop (nat (if b < 0 then int (length xs) + b else b)) xs"

definition slice_to :: "'a list \<Rightarrow> int \<Rightarrow> 'a list" where
  "slice_to xs b = take (nat (if b < 0 then int (length xs) + b else b)) xs"

section \<open>The allocation heuristics\<close>

text \<open>
  The scan \<^verbatim>\<open>for t, step in enumerate(...)\<close> that \<^verbatim>\<open>first_fit\<close> runs once and
  \<^verbatim>\<open>next_fit\<close> runs twice, with the same body: \<open>t\<close> is the index of the head of the
  remaining list, \<open>t1\<close> and \<open>t2\<close> are the variables of the source, and returning without
  a recursive call is the \<^verbatim>\<open>break\<close>.
\<close>

fun scan :: "task \<Rightarrow> int \<Rightarrow> int list \<Rightarrow> int \<Rightarrow> int \<Rightarrow> int \<times> int" where
  "scan x t [] t1 t2 = (t1, t2)"
| "scan x t (step # rest) t1 t2 =
     (if step < height x then scan x (t + 1) rest (- 1) t2
      else
        (let t1' = (if t1 = - 1 then t else t1)
         in if t - t1' = width x - 1 then (t1', t)
            else scan x (t + 1) rest t1' t2))"

text \<open>The body of the loop over the tasks in \<^verbatim>\<open>first_fit\<close>, for one task.\<close>

definition first_fit_task :: "task \<Rightarrow> int list \<Rightarrow> error + (task \<times> int list)" where
  "first_fit_task x step_function =
     (case scan x 0 step_function (- 1) (- 1) of
        (t1, t2) \<Rightarrow>
          if t1 \<noteq> - 1 \<and> t2 \<noteq> - 1
          then (case sub_range t1 (t2 + 1) (height x) step_function of
                  Inl e \<Rightarrow> Inl e
                | Inr sf' \<Rightarrow> Inr (x\<lparr>start_time := t1, end_time := t2\<rparr>, sf'))
          else Inr (x, step_function))"

fun first_fit :: "task list \<Rightarrow> int list \<Rightarrow> error + (task list \<times> int list)" where
  "first_fit [] step_function = Inr ([], step_function)"
| "first_fit (x # xs) step_function =
     (case first_fit_task x step_function of
        Inl e \<Rightarrow> Inl e
      | Inr (x', sf') \<Rightarrow>
          (case first_fit xs sf' of
             Inl e \<Rightarrow> Inl e
           | Inr (xs', sf'') \<Rightarrow> Inr (x' # xs', sf'')))"

text \<open>
  The body of the loop over the tasks in \<^verbatim>\<open>next_fit\<close>. It starts with
  \<^verbatim>\<open>it_begin = 0\<close> and ends with the assignment to \<^verbatim>\<open>it_begin\<close>, whose value is
  returned as the third component.
\<close>

definition next_fit_task :: "task \<Rightarrow> int list \<Rightarrow> error + (task \<times> int list \<times> int)" where
  "next_fit_task x step_function =
     (let it_begin = 0 in
      case scan x 0 (slice_from step_function it_begin) (- 1) (- 1) of
        (t1a, t2a) \<Rightarrow>
          (case (if t1a = - 1 \<or> t2a = - 1
                 then scan x 0 (slice_to step_function it_begin) t1a t2a
                 else (t1a, t2a)) of
             (t1, t2) \<Rightarrow>
               (case (if t1 \<noteq> - 1 \<and> t2 \<noteq> - 1
                      then (case sub_range t1 (t2 + 1) (height x) step_function of
                              Inl e \<Rightarrow> Inl e
                            | Inr sf' \<Rightarrow> Inr (x\<lparr>start_time := t1, end_time := t2\<rparr>, sf'))
                      else Inr (x, step_function)) of
                  Inl e \<Rightarrow> Inl e
                | Inr (x', sf') \<Rightarrow>
                    Inr (x', sf', if t2 = int (length sf') then 0 else t2 + 1))))"

text \<open>
  The loop over the tasks in \<^verbatim>\<open>next_fit\<close>: the value of \<^verbatim>\<open>it_begin\<close> left by one
  iteration is overwritten by the first statement of the next one.
\<close>

fun next_fit :: "task list \<Rightarrow> int list \<Rightarrow> error + (task list \<times> int list)" where
  "next_fit [] step_function = Inr ([], step_function)"
| "next_fit (x # xs) step_function =
     (case next_fit_task x step_function of
        Inl e \<Rightarrow> Inl e
      | Inr (x', sf', it_begin) \<Rightarrow>
          (case next_fit xs sf' of
             Inl e \<Rightarrow> Inl e
           | Inr (xs', sf'') \<Rightarrow> Inr (x' # xs', sf'')))"

text \<open>
  The scan of \<^verbatim>\<open>best_fit\<close>, with its variables \<open>t1\<close>, \<open>t2\<close>, \<open>cur_area\<close>, \<open>max_area\<close>
  and \<open>best_pos\<close>, returned in this order.
\<close>

fun best_fit_scan ::
  "task \<Rightarrow> int \<Rightarrow> int list \<Rightarrow> int \<Rightarrow> int \<Rightarrow> int \<Rightarrow> int \<Rightarrow> int \<Rightarrow> int \<times> int \<times> int \<times> int \<times> int" where
  "best_fit_scan x t [] t1 t2 cur_area max_area best_pos = (t1, t2, cur_area, max_area, best_pos)"
| "best_fit_scan x t (step # rest) t1 t2 cur_area max_area best_pos =
     (if step < height x then best_fit_scan x (t + 1) rest (- 1) t2 0 max_area best_pos
      else
        (let cur1 = (if t1 = - 1 then cur_area + (step - height x) else cur_area);
             t1' = (if t1 = - 1 then t else t1)
         in if t - t1' < width x - 1
            then best_fit_scan x (t + 1) rest t1' t2 (cur1 + (step - height x)) max_area best_pos
            else if t - t1' = width x - 1
            then (let cur2 = cur1 + (step - height x)
                  in if cur2 > max_area then (t1', t, cur2, cur2, t1')
                     else (t1', t, cur2, max_area, best_pos))
            else best_fit_scan x (t + 1) rest t1' t2 cur1 max_area best_pos))"

definition best_fit_task :: "task \<Rightarrow> int list \<Rightarrow> error + (task \<times> int list)" where
  "best_fit_task x step_function =
     (case best_fit_scan x 0 step_function (- 1) (- 1) 0 0 (- 1) of
        (t1, t2, cur_area, max_area, best_pos) \<Rightarrow>
          if t1 \<noteq> - 1 \<and> t2 \<noteq> - 1
          then (case sub_range t1 (t2 + 1) (height x) step_function of
                  Inl e \<Rightarrow> Inl e
                | Inr sf' \<Rightarrow>
                    Inr (x\<lparr>start_time := best_pos, end_time := best_pos + width x - 1\<rparr>, sf'))
          else Inr (x, step_function))"

fun best_fit :: "task list \<Rightarrow> int list \<Rightarrow> error + (task list \<times> int list)" where
  "best_fit [] step_function = Inr ([], step_function)"
| "best_fit (x # xs) step_function =
     (case best_fit_task x step_function of
        Inl e \<Rightarrow> Inl e
      | Inr (x', sf') \<Rightarrow>
          (case best_fit xs sf' of
             Inl e \<Rightarrow> Inl e
           | Inr (xs', sf'') \<Rightarrow> Inr (x' # xs', sf'')))"

section \<open>The evaluation loop\<close>

text \<open>The sort keys, and the \<^verbatim>\<open>if order == ...\<close> chain around \<^verbatim>\<open>tasks.sort(key=...)\<close>:
  Python's sort is stable and ascending, as \<^const>\<open>sort_key\<close> is.\<close>

definition sort_by_width :: "task \<Rightarrow> int" where
  "sort_by_width x = width x"

definition sort_by_height :: "task \<Rightarrow> int" where
  "sort_by_height x = height x"

definition sort_by_area :: "task \<Rightarrow> int" where
  "sort_by_area x = width x * height x"

definition sort_tasks :: "string \<Rightarrow> task list \<Rightarrow> task list" where
  "sort_tasks order_name tasks =
     (if order_name = ''width'' then sort_key sort_by_width tasks
      else if order_name = ''height'' then sort_key sort_by_height tasks
      else if order_name = ''area'' then sort_key sort_by_area tasks
      else tasks)"




section \<open>Feasible windows\<close>

text \<open>
  A window for task \<open>x\<close> that starts at slot \<open>s\<close> of the profile: \<open>width x\<close> consecutive
  slots inside the profile, each with a capacity of at least \<open>height x\<close>.
\<close>

definition window_ok :: "int list \<Rightarrow> task \<Rightarrow> nat \<Rightarrow> bool" where
  "window_ok sf x s \<longleftrightarrow>
     1 \<le> width x \<and> int s + width x \<le> int (length sf) \<and>
     (\<forall>c \<in> set (take (nat (width x)) (drop s sf)). height x \<le> c)"

text \<open>
  The profile after the task \<open>x\<close> has been placed at slot \<open>s\<close>: the slots of its window
  lose \<open>height x\<close>, the others are kept.
\<close>

definition subtract_window :: "int list \<Rightarrow> nat \<Rightarrow> task \<Rightarrow> int list" where
  "subtract_window sf s x =
     take s sf @ map (\<lambda>c. c - height x) (take (nat (width x)) (drop s sf)) @
     drop (s + nat (width x)) sf"

section \<open>The scans and the subtraction loop\<close>

lemma slice_from_0: "slice_from xs 0 = xs"
  by (simp add: slice_from_def)

lemma slice_to_0: "slice_to xs 0 = []"
  by (simp add: slice_to_def)

lemma next_fit_task_first_fit_task:
  "map_sum id (\<lambda>(x', sf', it). (x', sf')) (next_fit_task x sf) = first_fit_task x sf"
  by (simp add: next_fit_task_def first_fit_task_def slice_from_0 slice_to_0
      split: prod.splits sum.splits)

lemma next_fit_first_fit: "next_fit tasks sf = first_fit tasks sf"
proof (induction tasks arbitrary: sf)
  case Nil
  show ?case by simp
next
  case (Cons x xs)
  have "first_fit_task x sf = map_sum id (\<lambda>(x', sf', it). (x', sf')) (next_fit_task x sf)"
    by (simp only: next_fit_task_first_fit_task)
  then show ?case
    by (cases "next_fit_task x sf") (auto simp: Cons.IH split: sum.splits)
qed

lemma best_fit_scan_scan:
  "best_fit_scan x t rest t1 t2 cur mx bp = (a, b, c, m, p) \<Longrightarrow> scan x t rest t1 t2 = (a, b)"
proof (induction rest arbitrary: t t1 cur)
  case Nil
  then show ?case by simp
next
  case (Cons step rest)
  then show ?case
    by (auto simp: Let_def split: if_splits)
qed

lemma best_fit_scan_pos:
  "best_fit_scan x t rest t1 t2 cur mx bp = (a, b, c, m, p) \<Longrightarrow> p = bp \<or> p = a"
proof (induction rest arbitrary: t t1 cur)
  case Nil
  then show ?case by simp
next
  case (Cons step rest)
  then show ?case
    by (auto simp: Let_def split: if_splits)
qed

lemma sub_range_ok:
  "0 \<le> t \<Longrightarrow> stop \<le> int (length sf) \<Longrightarrow>
   \<exists>sf'. sub_range t stop h sf = Inr sf' \<and> length sf' = length sf \<and>
     (\<forall>i<length sf. sf' ! i = (if t \<le> int i \<and> int i < stop then sf ! i - h else sf ! i))"
proof (induction t stop h sf rule: sub_range.induct)
  case (1 t stop h sf)
  show ?case
  proof (cases "t < stop")
    case False
    then show ?thesis by (simp add: sub_range.simps)
  next
    case True
    with "1.prems" have idx: "py_index (int (length sf)) t = Inr (nat t)"
      by (simp add: py_index_def)
    then have sa: "sub_at sf t h = Inr (sf[nat t := sf ! nat t - h])"
      by (simp add: sub_at_def)
    let ?sf = "sf[nat t := sf ! nat t - h]"
    from "1.IH"[OF True sa] "1.prems"
    obtain sf' where r: "sub_range (t + 1) stop h ?sf = Inr sf'" "length sf' = length ?sf"
      and nth: "\<forall>i<length ?sf. sf' ! i = (if t + 1 \<le> int i \<and> int i < stop then ?sf ! i - h else ?sf ! i)"
      by auto
    have "sub_range t stop h sf = Inr sf'"
      using True sa r(1) by (subst sub_range.simps) simp
    moreover have "length sf' = length sf" using r(2) by simp
    moreover have "\<forall>i<length sf. sf' ! i = (if t \<le> int i \<and> int i < stop then sf ! i - h else sf ! i)"
    proof (intro allI impI)
      fix i assume i: "i < length sf"
      show "sf' ! i = (if t \<le> int i \<and> int i < stop then sf ! i - h else sf ! i)"
      proof (cases "i = nat t")
        case True
        then show ?thesis using nth i "1.prems" \<open>t < stop\<close> by (simp add: nth_list_update)
      next
        case False
        then have "int i \<noteq> t" by auto
        then show ?thesis using nth i False "1.prems" by (auto simp: nth_list_update)
      qed
    qed
    ultimately show ?thesis by blast
  qed
qed

lemma window_ok_iff:
  "window_ok sf x s \<longleftrightarrow>
     1 \<le> width x \<and> int s + width x \<le> int (length sf) \<and>
     (\<forall>i. s \<le> i \<and> int i < int s + width x \<longrightarrow> height x \<le> sf ! i)"
proof (cases "1 \<le> width x \<and> int s + width x \<le> int (length sf)")
  case False
  then show ?thesis by (auto simp: window_ok_def)
next
  case True
  then have len: "s + nat (width x) \<le> length sf" by linarith
  have "(\<forall>c \<in> set (take (nat (width x)) (drop s sf)). height x \<le> c) \<longleftrightarrow>
        (\<forall>j < nat (width x). height x \<le> sf ! (s + j))"
    using len by (auto simp: all_set_conv_all_nth)
  also have "\<dots> \<longleftrightarrow> (\<forall>i. s \<le> i \<and> int i < int s + width x \<longrightarrow> height x \<le> sf ! i)"
  proof
    assume a: "\<forall>j < nat (width x). height x \<le> sf ! (s + j)"
    show "\<forall>i. s \<le> i \<and> int i < int s + width x \<longrightarrow> height x \<le> sf ! i"
    proof (intro allI impI)
      fix i assume "s \<le> i \<and> int i < int s + width x"
      then have "i - s < nat (width x)" "s + (i - s) = i" by linarith+
      with a show "height x \<le> sf ! i" by metis
    qed
  next
    assume a: "\<forall>i. s \<le> i \<and> int i < int s + width x \<longrightarrow> height x \<le> sf ! i"
    show "\<forall>j < nat (width x). height x \<le> sf ! (s + j)"
    proof (intro allI impI)
      fix j assume "j < nat (width x)"
      then have "s \<le> s + j \<and> int (s + j) < int s + width x" by linarith
      with a show "height x \<le> sf ! (s + j)" by blast
    qed
  qed
  finally show ?thesis using True by (simp add: window_ok_def)
qed

lemma scan_sound:
  assumes "scan x t rest t1 (- 1) = (a, b)" and "t = int (length pre)"
    and "t1 = - 1 \<or> (0 \<le> t1 \<and> t1 < t \<and> (\<forall>i. nat t1 \<le> i \<and> i < length pre \<longrightarrow> height x \<le> pre ! i))"
  shows "b = - 1 \<or>
         (0 \<le> a \<and> a \<le> b \<and> b < int (length pre + length rest) \<and> b - a = width x - 1 \<and>
          (\<forall>i. nat a \<le> i \<and> i \<le> nat b \<longrightarrow> height x \<le> (pre @ rest) ! i))"
  using assms
proof (induction rest arbitrary: t t1 pre)
  case Nil
  then show ?case by simp
next
  case (Cons step rest)
  show ?case
  proof (cases "step < height x")
    case True
    with Cons.prems have "scan x (t + 1) rest (- 1) (- 1) = (a, b)" by simp
    from Cons.IH[OF this, of "pre @ [step]"] Cons.prems(2)
    show ?thesis by simp
  next
    case False
    define t1' where "t1' = (if t1 = - 1 then t else t1)"
    have inv: "0 \<le> t1' \<and> t1' \<le> t \<and> (\<forall>i. nat t1' \<le> i \<and> i < length (pre @ [step]) \<longrightarrow> height x \<le> (pre @ [step]) ! i)"
      using Cons.prems(2,3) False by (auto simp: t1'_def nth_append less_Suc_eq)
    show ?thesis
    proof (cases "t - t1' = width x - 1")
      case True
      with False Cons.prems(1) have ab: "a = t1'" "b = t"
        by (simp_all add: t1'_def Let_def)
      have "\<forall>i. nat a \<le> i \<and> i \<le> nat b \<longrightarrow> height x \<le> (pre @ step # rest) ! i"
      proof (intro allI impI)
        fix i assume "nat a \<le> i \<and> i \<le> nat b"
        then have "nat t1' \<le> i \<and> i < length (pre @ [step])" using ab Cons.prems(2) by auto
        with inv have "height x \<le> (pre @ [step]) ! i" by blast
        moreover have "(pre @ step # rest) ! i = (pre @ [step]) ! i"
          using \<open>nat t1' \<le> i \<and> i < length (pre @ [step])\<close> by (auto simp: nth_append)
        ultimately show "height x \<le> (pre @ step # rest) ! i" by simp
      qed
      then show ?thesis using ab inv True Cons.prems(2) by auto
    next
      case neq: False
      with False Cons.prems(1) have "scan x (t + 1) rest t1' (- 1) = (a, b)"
        by (simp add: t1'_def Let_def)
      from Cons.IH[OF this, of "pre @ [step]"] Cons.prems(2) inv
      show ?thesis by simp
    qed
  qed
qed

lemma scan_least:
  assumes "scan x t rest t1 (- 1) = (a, b)" and "t = int (length pre)" and "1 \<le> width x"
    and "t1 = - 1 \<or> (0 \<le> t1 \<and> t1 < t \<and> t - t1 < width x)"
    and "\<forall>s. int s < (if t1 = - 1 then t else t1) \<longrightarrow> \<not> window_ok (pre @ rest) x s"
  shows "(b = - 1 \<longrightarrow> (\<forall>s. \<not> window_ok (pre @ rest) x s)) \<and>
         (b \<noteq> - 1 \<longrightarrow> (\<forall>s. int s < a \<longrightarrow> \<not> window_ok (pre @ rest) x s))"
  using assms
proof (induction rest arbitrary: t t1 pre)
  case Nil
  have "\<not> window_ok pre x s" for s
  proof (cases "int s < (if t1 = - 1 then t else t1)")
    case True
    with Nil.prems(5) show ?thesis by simp
  next
    case False
    with Nil.prems(2,3,4) have "int (length pre) < int s + width x"
      by (auto split: if_splits)
    then show ?thesis by (simp add: window_ok_iff)
  qed
  with Nil.prems(1) show ?case by simp
next
  case (Cons step rest)
  define s0 where "s0 = (if t1 = - 1 then t else t1)"
  have s0: "0 \<le> s0" "s0 \<le> t" "t - s0 < width x"
    using Cons.prems(2,3,4) by (auto simp: s0_def)
  have before: "\<forall>s. int s < s0 \<longrightarrow> \<not> window_ok (pre @ step # rest) x s"
    using Cons.prems(5) by (simp add: s0_def)
  show ?case
  proof (cases "step < height x")
    case True
    with Cons.prems have sc: "scan x (t + 1) rest (- 1) (- 1) = (a, b)" by simp
    have "\<not> window_ok (pre @ step # rest) x s" if "int s < t + 1" for s
    proof (cases "int s < s0")
      case True
      with before show ?thesis by simp
    next
      case False
      with that s0 Cons.prems(2)
      have "s \<le> length pre \<and> int (length pre) < int s + width x" by auto
      moreover have "\<not> height x \<le> (pre @ step # rest) ! length pre"
        using True by simp
      ultimately show ?thesis unfolding window_ok_iff by blast
    qed
    then have "\<forall>s. int s < (if (- 1::int) = - 1 then t + 1 else - 1) \<longrightarrow>
                 \<not> window_ok ((pre @ [step]) @ rest) x s"
      by simp
    from Cons.IH[OF sc _ Cons.prems(3) _ this] Cons.prems(2)
    show ?thesis by simp
  next
    case False
    show ?thesis
    proof (cases "t - s0 = width x - 1")
      case True
      with False Cons.prems(1) have ab: "a = s0" "b = t"
        by (simp_all add: s0_def Let_def)
      with before s0 Cons.prems(2) show ?thesis by auto
    next
      case neq: False
      with False Cons.prems(1) have sc: "scan x (t + 1) rest s0 (- 1) = (a, b)"
        by (simp add: s0_def Let_def)
      have inv: "s0 = - 1 \<or> (0 \<le> s0 \<and> s0 < t + 1 \<and> t + 1 - s0 < width x)"
        using s0 neq by auto
      have "\<forall>s. int s < (if s0 = - 1 then t + 1 else s0) \<longrightarrow>
                 \<not> window_ok ((pre @ [step]) @ rest) x s"
        using before s0 by simp
      from Cons.IH[OF sc _ Cons.prems(3) inv this] Cons.prems(2)
      show ?thesis by simp
    qed
  qed
qed

text \<open>The scan from the initial state.\<close>

lemma scan_spec:
  assumes "scan x 0 sf (- 1) (- 1) = (a, b)"
  shows "(b = - 1 \<and> (\<forall>s. \<not> window_ok sf x s)) \<or>
         (b \<noteq> - 1 \<and> 0 \<le> a \<and> b = a + width x - 1 \<and> window_ok sf x (nat a) \<and>
          (\<forall>s < nat a. \<not> window_ok sf x s))"
proof (cases "b = - 1")
  case False
  from scan_sound[OF assms, of "[]"] False
  have snd: "0 \<le> a" "a \<le> b" "b < int (length sf)" "b - a = width x - 1"
    "\<forall>i. nat a \<le> i \<and> i \<le> nat b \<longrightarrow> height x \<le> sf ! i"
    by auto
  then have w: "1 \<le> width x" by linarith
  have ok: "window_ok sf x (nat a)"
    unfolding window_ok_iff using snd w by auto
  from scan_least[OF assms, of "[]"] w False
  have "\<forall>s. int s < a \<longrightarrow> \<not> window_ok sf x s" by simp
  then have "\<forall>s < nat a. \<not> window_ok sf x s" using snd(1) by auto
  with False snd ok show ?thesis by auto
next
  case True
  show ?thesis
  proof (cases "1 \<le> width x")
    case w: True
    from scan_least[OF assms, of "[]"] w True show ?thesis by simp
  next
    case False
    then show ?thesis using True by (simp add: window_ok_def)
  qed
qed

section \<open>One task\<close>

lemma subtract_windowI:
  assumes "int s + width x \<le> int (length sf)" and "0 \<le> width x"
    and "length sf' = length sf"
    and "\<forall>i<length sf. sf' ! i = (if int s \<le> int i \<and> int i < int s + width x then sf ! i - height x else sf ! i)"
  shows "sf' = subtract_window sf s x"
proof (rule nth_equalityI)
  have le: "s + nat (width x) \<le> length sf" using assms(1,2) by linarith
  then show len: "length sf' = length (subtract_window sf s x)"
    using assms(3) by (simp add: subtract_window_def)
  fix i assume "i < length sf'"
  then have i: "i < length sf" using assms(3) by simp
  with assms(4) have eq: "sf' ! i =
      (if int s \<le> int i \<and> int i < int s + width x then sf ! i - height x else sf ! i)"
    by blast
  consider "i < s" | "s \<le> i" "i < s + nat (width x)" | "s + nat (width x) \<le> i"
    by linarith
  then show "sf' ! i = subtract_window sf s x ! i"
  proof cases
    case 1
    then have "\<not> (int s \<le> int i \<and> int i < int s + width x)" by linarith
    then have "sf' ! i = sf ! i" using eq by (simp only: if_False simp_thms)
    then show ?thesis using 1 i le by (simp add: subtract_window_def nth_append)
  next
    case 2
    then have "int s \<le> int i \<and> int i < int s + width x" by linarith
    then have "sf' ! i = sf ! i - height x" using eq by (simp only: if_True simp_thms)
    moreover have "i - s < nat (width x)" using 2 by linarith
    then have "subtract_window sf s x ! i = sf ! (s + (i - s)) - height x"
      using 2 le i by (simp add: subtract_window_def nth_append)
    ultimately show ?thesis using 2 by simp
  next
    case 3
    then have "\<not> (int s \<le> int i \<and> int i < int s + width x)" by linarith
    then have "sf' ! i = sf ! i" using eq by (simp only: if_False simp_thms)
    moreover have "\<not> i < s" "\<not> i - s < nat (width x)"
      "s + nat (width x) + (i - s - nat (width x)) = i"
      "min (length sf - s) (nat (width x)) = nat (width x)"
      using 3 le by linarith+
    then have "subtract_window sf s x ! i = sf ! i"
      using i by (simp add: subtract_window_def nth_append)
    ultimately show ?thesis by simp
  qed
qed

lemma sub_range_window:
  assumes "window_ok sf x s"
  shows "sub_range (int s) (int s + width x - 1 + 1) (height x) sf = Inr (subtract_window sf s x)"
proof -
  from assms have w: "1 \<le> width x" "int s + width x \<le> int (length sf)"
    by (simp_all add: window_ok_def)
  from sub_range_ok[of "int s" "int s + width x - 1 + 1" sf "height x"] w
  obtain sf' where r: "sub_range (int s) (int s + width x - 1 + 1) (height x) sf = Inr sf'"
    "length sf' = length sf"
    "\<forall>i<length sf. sf' ! i = (if int s \<le> int i \<and> int i < int s + width x - 1 + 1 then sf ! i - height x else sf ! i)"
    by auto
  have "sf' = subtract_window sf s x"
    using w r(2,3) by (intro subtract_windowI) simp_all
  with r(1) show ?thesis by simp
qed

lemma first_fit_task_spec:
  "(first_fit_task x sf = Inr (x, sf) \<and> (\<forall>s. \<not> window_ok sf x s)) \<or>
   (\<exists>s. window_ok sf x s \<and> (\<forall>s'<s. \<not> window_ok sf x s') \<and>
        first_fit_task x sf =
          Inr (x\<lparr>start_time := int s, end_time := int s + width x - 1\<rparr>, subtract_window sf s x))"
proof -
  obtain a b where sc: "scan x 0 sf (- 1) (- 1) = (a, b)" by fastforce
  from scan_spec[OF sc] show ?thesis
  proof
    assume "b = - 1 \<and> (\<forall>s. \<not> window_ok sf x s)"
    then show ?thesis using sc by (simp add: first_fit_task_def)
  next
    assume h: "b \<noteq> - 1 \<and> 0 \<le> a \<and> b = a + width x - 1 \<and> window_ok sf x (nat a) \<and>
          (\<forall>s < nat a. \<not> window_ok sf x s)"
    then have a: "a = int (nat a)" "a \<noteq> - 1" by auto
    from h sub_range_window[of sf x "nat a"]
    have "sub_range a (b + 1) (height x) sf = Inr (subtract_window sf (nat a) x)" by simp
    then have "first_fit_task x sf =
       Inr (x\<lparr>start_time := int (nat a), end_time := int (nat a) + width x - 1\<rparr>, subtract_window sf (nat a) x)"
      using sc h a by (simp add: first_fit_task_def)
    with h show ?thesis by blast
  qed
qed

lemma best_fit_task_spec:
  "(best_fit_task x sf = Inr (x, sf) \<and> (\<forall>s. \<not> window_ok sf x s)) \<or>
   (\<exists>s p. window_ok sf x s \<and> (\<forall>s'<s. \<not> window_ok sf x s') \<and> (p = int s \<or> p = - 1) \<and>
        best_fit_task x sf =
          Inr (x\<lparr>start_time := p, end_time := p + width x - 1\<rparr>, subtract_window sf s x))"
proof -
  obtain a b c m p where bs: "best_fit_scan x 0 sf (- 1) (- 1) 0 0 (- 1) = (a, b, c, m, p)"
    using prod_cases5 by blast
  from best_fit_scan_scan[OF bs] have sc: "scan x 0 sf (- 1) (- 1) = (a, b)" .
  from best_fit_scan_pos[OF bs] have p: "p = - 1 \<or> p = a" .
  from scan_spec[OF sc] show ?thesis
  proof
    assume "b = - 1 \<and> (\<forall>s. \<not> window_ok sf x s)"
    then show ?thesis using bs by (simp add: best_fit_task_def)
  next
    assume h: "b \<noteq> - 1 \<and> 0 \<le> a \<and> b = a + width x - 1 \<and> window_ok sf x (nat a) \<and>
          (\<forall>s < nat a. \<not> window_ok sf x s)"
    then have a: "a = int (nat a)" "a \<noteq> - 1" by auto
    from h sub_range_window[of sf x "nat a"]
    have "sub_range a (b + 1) (height x) sf = Inr (subtract_window sf (nat a) x)" by simp
    then have "best_fit_task x sf =
       Inr (x\<lparr>start_time := p, end_time := p + width x - 1\<rparr>, subtract_window sf (nat a) x)"
      using bs h a by (simp add: best_fit_task_def)
    moreover have "p = int (nat a) \<or> p = - 1" using p a by auto
    ultimately show ?thesis using h by blast
  qed
qed

section \<open>The loop over the tasks\<close>

lemma subtract_window_nonneg:
  assumes "window_ok sf x s" and "\<forall>c\<in>set sf. 0 \<le> c"
  shows "\<forall>c\<in>set (subtract_window sf s x). 0 \<le> c"
proof
  fix c assume "c \<in> set (subtract_window sf s x)"
  then consider "c \<in> set (take s sf)"
    | d where "d \<in> set (take (nat (width x)) (drop s sf))" "c = d - height x"
    | "c \<in> set (drop (s + nat (width x)) sf)"
    by (auto simp: subtract_window_def)
  then show "0 \<le> c"
  proof cases
    case 1
    then show ?thesis using assms(2) by (meson in_set_takeD)
  next
    case 2
    with assms(1) have "height x \<le> d" by (simp add: window_ok_def)
    with 2 show ?thesis by simp
  next
    case 3
    then show ?thesis using assms(2) by (meson in_set_dropD)
  qed
qed

text \<open>A loop over the tasks keeps an invariant of the profile that its body keeps.\<close>

lemma task_loop_invariant:
  assumes nil: "\<And>sf. f [] sf = Inr ([], sf)"
    and cons: "\<And>x xs sf. f (x # xs) sf =
      (case ft x sf of
         Inl e \<Rightarrow> Inl e
       | Inr (x', sf') \<Rightarrow>
           (case f xs sf' of Inl e \<Rightarrow> Inl e | Inr (xs', sf'') \<Rightarrow> Inr (x' # xs', sf'')))"
    and step: "\<And>x sf. P x \<Longrightarrow> I sf \<Longrightarrow> \<exists>x' sf'. ft x sf = Inr (x', sf') \<and> I sf' \<and> Q x x'"
    and "\<forall>x\<in>set tasks. P x" and "I sf"
  shows "\<exists>tasks' sf'. f tasks sf = Inr (tasks', sf') \<and> I sf' \<and> list_all2 Q tasks tasks'"
  using assms(4,5)
proof (induction tasks arbitrary: sf)
  case Nil
  then show ?case by (simp add: nil)
next
  case (Cons x xs)
  from step[of x sf] Cons.prems obtain x' sf1
    where s: "ft x sf = Inr (x', sf1)" "I sf1" "Q x x'" by auto
  from Cons.IH[of sf1] Cons.prems s(2) obtain xs' sf2
    where r: "f xs sf1 = Inr (xs', sf2)" "I sf2" "list_all2 Q xs xs'" by auto
  have "f (x # xs) sf = Inr (x' # xs', sf2)"
    by (simp add: cons s(1) r(1))
  with r s(3) show ?case by simp
qed

text \<open>A loop over the tasks runs a prefix of the list first and the rest on its profile.\<close>

lemma task_loop_append:
  assumes nil: "\<And>sf. f [] sf = Inr ([], sf)"
    and cons: "\<And>x xs sf. f (x # xs) sf =
      (case ft x sf of
         Inl e \<Rightarrow> Inl e
       | Inr (x', sf') \<Rightarrow>
           (case f xs sf' of Inl e \<Rightarrow> Inl e | Inr (xs', sf'') \<Rightarrow> Inr (x' # xs', sf'')))"
    and "f pre sf = Inr (pre', sf1)" and "f rest sf1 = Inr (rest', sf2)"
  shows "f (pre @ rest) sf = Inr (pre' @ rest', sf2)"
  using assms(3,4)
proof (induction pre arbitrary: sf pre')
  case Nil
  then show ?case by (simp add: nil)
next
  case (Cons x xs)
  from Cons.prems(1) obtain x' sfa xs' where
    a: "ft x sf = Inr (x', sfa)" and b: "f xs sfa = Inr (xs', sf1)" and c: "pre' = x' # xs'"
    by (auto simp: cons split: sum.splits)
  from Cons.IH[OF b Cons.prems(2)] have "f (xs @ rest) sfa = Inr (xs' @ rest', sf2)" .
  then show ?case using a c by (simp add: cons)
qed

lemmas first_fit_eqs = first_fit.simps(1) first_fit.simps(2)
lemmas best_fit_eqs = best_fit.simps(1) best_fit.simps(2)

lemma first_fit_task_Inr: "\<exists>x' sf'. first_fit_task x sf = Inr (x', sf')"
  using first_fit_task_spec[of x sf] by auto

lemma best_fit_task_Inr: "\<exists>x' sf'. best_fit_task x sf = Inr (x', sf')"
  using best_fit_task_spec[of x sf] by auto

lemma first_fit_Inr: "\<exists>tasks' sf'. first_fit tasks sf = Inr (tasks', sf')"
  using task_loop_invariant[of first_fit first_fit_task "\<lambda>_. True" "\<lambda>_. True" "\<lambda>_ _. True" tasks sf]
    first_fit_task_Inr by (auto simp del: first_fit.simps simp: first_fit_eqs)

lemma best_fit_Inr: "\<exists>tasks' sf'. best_fit tasks sf = Inr (tasks', sf')"
  using task_loop_invariant[of best_fit best_fit_task "\<lambda>_. True" "\<lambda>_. True" "\<lambda>_ _. True" tasks sf]
    best_fit_task_Inr by (auto simp del: best_fit.simps simp: best_fit_eqs)

section \<open>Next-fit and first-fit\<close>

text \<open>
  Claim C10. \<^verbatim>\<open>next_fit\<close> returns what \<^verbatim>\<open>first_fit\<close> returns, the tasks and the
  profile, for every list of tasks and every profile: each iteration sets \<open>it_begin\<close>
  to 0, so the first scan reads the whole profile and the second one an empty slice.
\<close>

theorem next_fit_equals_first_fit:
  "next_fit tasks step_function = first_fit tasks step_function"
  by (rule next_fit_first_fit)

section \<open>No entry of the profile becomes negative\<close>

lemma next_fit_fun: "next_fit = first_fit"
  by (intro ext) (rule next_fit_first_fit)

lemma first_fit_task_nonneg:
  assumes "\<forall>c\<in>set sf. 0 \<le> c"
  shows "\<exists>x' sf'. first_fit_task x sf = Inr (x', sf') \<and> (\<forall>c\<in>set sf'. 0 \<le> c) \<and> True"
  using first_fit_task_spec[of x sf] assms subtract_window_nonneg by blast

lemma best_fit_task_nonneg:
  assumes "\<forall>c\<in>set sf. 0 \<le> c"
  shows "\<exists>x' sf'. best_fit_task x sf = Inr (x', sf') \<and> (\<forall>c\<in>set sf'. 0 \<le> c) \<and> True"
  using best_fit_task_spec[of x sf] assms subtract_window_nonneg by blast

lemma first_fit_nonneg:
  assumes "\<forall>c\<in>set sf. 0 \<le> c"
  shows "\<exists>tasks' sf'. first_fit tasks sf = Inr (tasks', sf') \<and> (\<forall>c\<in>set sf'. 0 \<le> c)"
proof -
  from task_loop_invariant[of first_fit first_fit_task "\<lambda>_. True" "\<lambda>sf. \<forall>c\<in>set sf. 0 \<le> c"
      "\<lambda>_ _. True" tasks sf, OF first_fit_eqs first_fit_task_nonneg] assms
  show ?thesis by blast
qed

lemma best_fit_nonneg:
  assumes "\<forall>c\<in>set sf. 0 \<le> c"
  shows "\<exists>tasks' sf'. best_fit tasks sf = Inr (tasks', sf') \<and> (\<forall>c\<in>set sf'. 0 \<le> c)"
proof -
  from task_loop_invariant[of best_fit best_fit_task "\<lambda>_. True" "\<lambda>sf. \<forall>c\<in>set sf. 0 \<le> c"
      "\<lambda>_ _. True" tasks sf, OF best_fit_eqs best_fit_task_nonneg] assms
  show ?thesis by blast
qed

text \<open>
  Claim C3. When every entry of the capacity profile is non-negative, each of the three
  heuristics returns, for every list of tasks, and every entry of the profile it leaves
  is non-negative.
\<close>

theorem profile_stays_nonnegative:
  assumes "f \<in> {first_fit, next_fit, best_fit}" and "\<forall>c\<in>set step_function. 0 \<le> c"
  shows "\<exists>tasks' sf'. f tasks step_function = Inr (tasks', sf') \<and> (\<forall>c\<in>set sf'. 0 \<le> c)"
  using assms first_fit_nonneg[of step_function tasks] best_fit_nonneg[of step_function tasks]
  by (auto simp only: next_fit_fun insert_iff empty_iff)

theorem profile_stays_nonnegative_witness:
  "best_fit \<in> {first_fit, next_fit, best_fit} \<and> list_all (\<lambda>c. 0 \<le> c) [5, 5, 5, 0, 0, 5, 5, 5 :: int] \<and>
   (\<exists>tasks' sf'. best_fit [mk_task 3 5, mk_task 2 4] [5, 5, 5, 0, 0, 5, 5, 5] = Inr (tasks', sf') \<and>
      (\<forall>c\<in>set sf'. 0 \<le> c))"
proof -
  have a: "best_fit \<in> {first_fit, next_fit, best_fit}" by simp
  have b: "\<forall>c\<in>set [5, 5, 5, 0, 0, 5, 5, 5 :: int]. 0 \<le> c" by simp
  from profile_stays_nonnegative[OF a b, of "[mk_task 3 5, mk_task 2 4]"] a b
  show ?thesis by simp
qed

section \<open>Placed tasks span their width\<close>

lemma first_fit_task_span:
  "\<exists>x' sf'. first_fit_task x sf = Inr (x', sf') \<and> True \<and>
     (width x' = width x \<and> (x' = x \<or> end_time x' - start_time x' + 1 = width x'))"
  using first_fit_task_spec[of x sf] by auto

lemma best_fit_task_span:
  "\<exists>x' sf'. best_fit_task x sf = Inr (x', sf') \<and> True \<and>
     (width x' = width x \<and> (x' = x \<or> end_time x' - start_time x' + 1 = width x'))"
  using best_fit_task_spec[of x sf] by auto

lemma span_list:
  assumes "list_all2 (\<lambda>x x'. width x' = width x \<and>
             (x' = x \<or> end_time x' - start_time x' + 1 = width x')) tasks tasks'"
    and "\<forall>x\<in>set tasks. start_time x = - 1 \<and> end_time x = - 1"
  shows "map width tasks' = map width tasks \<and>
         (\<forall>y\<in>set tasks'. \<not> (start_time y = - 1 \<and> end_time y = - 1) \<longrightarrow>
            end_time y - start_time y + 1 = width y)"
  using assms by (induction rule: list_all2_induct) auto

lemma first_fit_span:
  assumes "\<forall>x\<in>set tasks. start_time x = - 1 \<and> end_time x = - 1"
  shows "\<exists>tasks' sf'. first_fit tasks sf = Inr (tasks', sf') \<and>
           map width tasks' = map width tasks \<and>
           (\<forall>y\<in>set tasks'. \<not> (start_time y = - 1 \<and> end_time y = - 1) \<longrightarrow>
              end_time y - start_time y + 1 = width y)"
proof -
  from task_loop_invariant[of first_fit first_fit_task "\<lambda>_. True" "\<lambda>_. True" _ tasks sf,
      OF first_fit_eqs first_fit_task_span]
  obtain tasks' sf' where r: "first_fit tasks sf = Inr (tasks', sf')"
    "list_all2 (\<lambda>x x'. width x' = width x \<and>
             (x' = x \<or> end_time x' - start_time x' + 1 = width x')) tasks tasks'"
    by auto
  from span_list[OF r(2) assms] r(1) show ?thesis by blast
qed

lemma best_fit_span:
  assumes "\<forall>x\<in>set tasks. start_time x = - 1 \<and> end_time x = - 1"
  shows "\<exists>tasks' sf'. best_fit tasks sf = Inr (tasks', sf') \<and>
           map width tasks' = map width tasks \<and>
           (\<forall>y\<in>set tasks'. \<not> (start_time y = - 1 \<and> end_time y = - 1) \<longrightarrow>
              end_time y - start_time y + 1 = width y)"
proof -
  from task_loop_invariant[of best_fit best_fit_task "\<lambda>_. True" "\<lambda>_. True" _ tasks sf,
      OF best_fit_eqs best_fit_task_span]
  obtain tasks' sf' where r: "best_fit tasks sf = Inr (tasks', sf')"
    "list_all2 (\<lambda>x x'. width x' = width x \<and>
             (x' = x \<or> end_time x' - start_time x' + 1 = width x')) tasks tasks'"
    by auto
  from span_list[OF r(2) assms] r(1) show ?thesis by blast
qed

text \<open>
  Claim C4. Run on tasks that are all unplaced, each of the three heuristics returns the
  tasks with their widths, and every task whose placement is no longer the pair of
  sentinels \<open>- 1\<close>, \<open>- 1\<close> has \<open>end_time - start_time + 1 = width\<close>.
\<close>

theorem placed_task_spans_width:
  assumes "f \<in> {first_fit, next_fit, best_fit}"
    and "\<forall>x\<in>set tasks. start_time x = - 1 \<and> end_time x = - 1"
  shows "\<exists>tasks' sf'. f tasks step_function = Inr (tasks', sf') \<and>
           map width tasks' = map width tasks \<and>
           (\<forall>y\<in>set tasks'. \<not> (start_time y = - 1 \<and> end_time y = - 1) \<longrightarrow>
              end_time y - start_time y + 1 = width y)"
  using assms(1) first_fit_span[OF assms(2), of step_function]
    best_fit_span[OF assms(2), of step_function]
  by (auto simp only: next_fit_fun insert_iff empty_iff)

theorem placed_task_spans_width_witness:
  "best_fit \<in> {first_fit, next_fit, best_fit} \<and>
   list_all (\<lambda>x. start_time x = - 1 \<and> end_time x = - 1) [mk_task 3 5, mk_task 4 1, mk_task 2 4] \<and>
   (\<exists>tasks' sf'. best_fit [mk_task 3 5, mk_task 4 1, mk_task 2 4] [5, 5, 5, 0, 0, 5, 5, 5] =
        Inr (tasks', sf') \<and>
      map width tasks' = map width [mk_task 3 5, mk_task 4 1, mk_task 2 4] \<and>
      (\<forall>y\<in>set tasks'. \<not> (start_time y = - 1 \<and> end_time y = - 1) \<longrightarrow>
         end_time y - start_time y + 1 = width y))"
proof -
  have a: "best_fit \<in> {first_fit, next_fit, best_fit}" by simp
  have b: "\<forall>x\<in>set [mk_task 3 5, mk_task 4 1, mk_task 2 4]. start_time x = - 1 \<and> end_time x = - 1"
    by (simp add: mk_task_def)
  from placed_task_spans_width[OF a b, of "[5, 5, 5, 0, 0, 5, 5, 5]"] a b
  show ?thesis by simp
qed

section \<open>First-fit takes the earliest window\<close>

lemma first_fit_append:
  "first_fit pre sf = Inr (pre', sf1) \<Longrightarrow> first_fit rest sf1 = Inr (rest', sf2) \<Longrightarrow>
   first_fit (pre @ rest) sf = Inr (pre' @ rest', sf2)"
  by (rule task_loop_append[of first_fit first_fit_task, OF first_fit_eqs])

lemma best_fit_append:
  "best_fit pre sf = Inr (pre', sf1) \<Longrightarrow> best_fit rest sf1 = Inr (rest', sf2) \<Longrightarrow>
   best_fit (pre @ rest) sf = Inr (pre' @ rest', sf2)"
  by (rule task_loop_append[of best_fit best_fit_task, OF best_fit_eqs])

text \<open>
  Claim C5. When \<^verbatim>\<open>first_fit\<close> reaches a task \<open>x\<close> for which the profile left by the
  tasks before it has a feasible window, \<open>x\<close> is placed on the earliest-starting one:
  it starts at the least slot \<open>s0\<close> where a window is feasible, ends \<open>width x\<close> slots
  later, the slots of that window lose \<open>height x\<close>, and the tasks after \<open>x\<close> run on
  that profile. On the profile 5,5,5,0,0,5,5,5 a task of width 3 and height 5 is placed
  at 0..2 and leaves 0,0,0,0,0,5,5,5.
\<close>

theorem first_fit_earliest_window:
  assumes "first_fit pre step_function = Inr (pre', sf1)" and "window_ok sf1 x s"
  shows "(\<exists>s0 xs' sf2. s0 \<le> s \<and> window_ok sf1 x s0 \<and> (\<forall>s'<s0. \<not> window_ok sf1 x s') \<and>
            first_fit xs (subtract_window sf1 s0 x) = Inr (xs', sf2) \<and>
            first_fit (pre @ x # xs) step_function =
              Inr (pre' @ x\<lparr>start_time := int s0, end_time := int s0 + width x - 1\<rparr> # xs', sf2)) \<and>
         first_fit [mk_task 3 5] [5, 5, 5, 0, 0, 5, 5, 5] =
           Inr ([\<lparr>width = 3, height = 5, start_time = 0, end_time = 2\<rparr>], [0, 0, 0, 0, 0, 5, 5, 5])"
proof
  from first_fit_task_spec[of x sf1] assms(2) obtain s0 where s0:
    "window_ok sf1 x s0" "\<forall>s'<s0. \<not> window_ok sf1 x s'"
    "first_fit_task x sf1 =
       Inr (x\<lparr>start_time := int s0, end_time := int s0 + width x - 1\<rparr>, subtract_window sf1 s0 x)"
    by blast
  have le: "s0 \<le> s"
  proof (rule ccontr)
    assume "\<not> s0 \<le> s"
    then have "s < s0" by simp
    with s0(2) assms(2) show False by blast
  qed
  obtain xs' sf2 where r: "first_fit xs (subtract_window sf1 s0 x) = Inr (xs', sf2)"
    using first_fit_Inr by blast
  have "first_fit (x # xs) sf1 =
      Inr (x\<lparr>start_time := int s0, end_time := int s0 + width x - 1\<rparr> # xs', sf2)"
    by (simp add: s0(3) r)
  from first_fit_append[OF assms(1) this]
  have "first_fit (pre @ x # xs) step_function =
      Inr (pre' @ x\<lparr>start_time := int s0, end_time := int s0 + width x - 1\<rparr> # xs', sf2)" .
  with s0(1,2) le r
  show "\<exists>s0 xs' sf2. s0 \<le> s \<and> window_ok sf1 x s0 \<and> (\<forall>s'<s0. \<not> window_ok sf1 x s') \<and>
            first_fit xs (subtract_window sf1 s0 x) = Inr (xs', sf2) \<and>
            first_fit (pre @ x # xs) step_function =
              Inr (pre' @ x\<lparr>start_time := int s0, end_time := int s0 + width x - 1\<rparr> # xs', sf2)"
    by blast
next
  show "first_fit [mk_task 3 5] [5, 5, 5, 0, 0, 5, 5, 5] =
           Inr ([\<lparr>width = 3, height = 5, start_time = 0, end_time = 2\<rparr>], [0, 0, 0, 0, 0, 5, 5, 5])"
    by (simp add: first_fit_task_def mk_task_def sub_range.simps sub_at_def py_index_def)
qed

theorem first_fit_earliest_window_witness:
  "first_fit [mk_task 1 2] [2, 5, 5, 5, 0, 0, 5, 5, 5] =
     Inr ([\<lparr>width = 1, height = 2, start_time = 0, end_time = 0\<rparr>], [0, 5, 5, 5, 0, 0, 5, 5, 5]) \<and>
   window_ok [0, 5, 5, 5, 0, 0, 5, 5, 5] (mk_task 3 5) 6 \<and>
   first_fit ([mk_task 1 2] @ mk_task 3 5 # [mk_task 2 5]) [2, 5, 5, 5, 0, 0, 5, 5, 5] =
     Inr ([\<lparr>width = 1, height = 2, start_time = 0, end_time = 0\<rparr>,
           \<lparr>width = 3, height = 5, start_time = 1, end_time = 3\<rparr>,
           \<lparr>width = 2, height = 5, start_time = 6, end_time = 7\<rparr>], [0, 0, 0, 0, 0, 0, 0, 0, 5])"
proof -
  have a: "first_fit [mk_task 1 2] [2, 5, 5, 5, 0, 0, 5, 5, 5] =
     Inr ([\<lparr>width = 1, height = 2, start_time = 0, end_time = 0\<rparr>], [0, 5, 5, 5, 0, 0, 5, 5, 5])"
    by (simp add: first_fit_task_def mk_task_def sub_range.simps sub_at_def py_index_def)
  have b: "window_ok [0, 5, 5, 5, 0, 0, 5, 5, 5] (mk_task 3 5) 6"
    by (simp add: window_ok_def mk_task_def)
  have nw: "\<not> window_ok [0, 5, 5, 5, 0, 0, 5, 5, 5] (mk_task 3 5) 0"
    by (simp add: window_ok_def mk_task_def)
  have w1: "window_ok [0, 5, 5, 5, 0, 0, 5, 5, 5] (mk_task 3 5) 1"
    by (simp add: window_ok_def mk_task_def)
  from first_fit_earliest_window[OF a b, of "[mk_task 2 5]"]
  obtain s0 xs' sf2 where r: "window_ok [0, 5, 5, 5, 0, 0, 5, 5, 5] (mk_task 3 5) s0"
    "\<forall>s'<s0. \<not> window_ok [0, 5, 5, 5, 0, 0, 5, 5, 5] (mk_task 3 5) s'"
    "first_fit [mk_task 2 5] (subtract_window [0, 5, 5, 5, 0, 0, 5, 5, 5] s0 (mk_task 3 5)) = Inr (xs', sf2)"
    "first_fit ([mk_task 1 2] @ mk_task 3 5 # [mk_task 2 5]) [2, 5, 5, 5, 0, 0, 5, 5, 5] =
      Inr ([\<lparr>width = 1, height = 2, start_time = 0, end_time = 0\<rparr>] @
           (mk_task 3 5)\<lparr>start_time := int s0, end_time := int s0 + width (mk_task 3 5) - 1\<rparr> # xs', sf2)"
    by blast
  have "s0 = 1"
  proof -
    have "\<not> 1 < s0" using r(2) w1 by blast
    moreover have "s0 \<noteq> 0" using r(1) nw by (metis)
    ultimately show ?thesis by linarith
  qed
  have c: "first_fit [mk_task 2 5] (subtract_window [0, 5, 5, 5, 0, 0, 5, 5, 5] 1 (mk_task 3 5)) =
      Inr ([\<lparr>width = 2, height = 5, start_time = 6, end_time = 7\<rparr>], [0, 0, 0, 0, 0, 0, 0, 0, 5])"
    by (simp add: subtract_window_def first_fit_task_def mk_task_def sub_range.simps sub_at_def py_index_def)
  from r(3,4) c a b show ?thesis
    unfolding \<open>s0 = 1\<close> by (simp add: mk_task_def)
qed

section \<open>Tasks without a feasible window\<close>

lemma first_fit_task_no_window:
  "\<forall>s. \<not> window_ok sf x s \<Longrightarrow> first_fit_task x sf = Inr (x, sf)"
  using first_fit_task_spec[of x sf] by blast

lemma best_fit_task_no_window:
  "\<forall>s. \<not> window_ok sf x s \<Longrightarrow> best_fit_task x sf = Inr (x, sf)"
  using best_fit_task_spec[of x sf] by blast

lemma first_fit_skip:
  assumes "first_fit pre sf = Inr (pre', sf1)" and "\<forall>s. \<not> window_ok sf1 x s"
  shows "\<exists>xs' sf2. first_fit xs sf1 = Inr (xs', sf2) \<and>
           first_fit (pre @ x # xs) sf = Inr (pre' @ x # xs', sf2)"
proof -
  obtain xs' sf2 where r: "first_fit xs sf1 = Inr (xs', sf2)"
    using first_fit_Inr by blast
  have "first_fit (x # xs) sf1 = Inr (x # xs', sf2)"
    by (simp add: first_fit_task_no_window[OF assms(2)] r)
  from first_fit_append[OF assms(1) this] r show ?thesis by blast
qed

lemma best_fit_skip:
  assumes "best_fit pre sf = Inr (pre', sf1)" and "\<forall>s. \<not> window_ok sf1 x s"
  shows "\<exists>xs' sf2. best_fit xs sf1 = Inr (xs', sf2) \<and>
           best_fit (pre @ x # xs) sf = Inr (pre' @ x # xs', sf2)"
proof -
  obtain xs' sf2 where r: "best_fit xs sf1 = Inr (xs', sf2)"
    using best_fit_Inr by blast
  have "best_fit (x # xs) sf1 = Inr (x # xs', sf2)"
    by (simp add: best_fit_task_no_window[OF assms(2)] r)
  from best_fit_append[OF assms(1) this] r show ?thesis by blast
qed

text \<open>
  Claim C6. When a heuristic reaches a task \<open>x\<close> for which the profile left by the
  tasks before it has no feasible window, it returns without an error, \<open>x\<close> is
  returned as it was, and the tasks after \<open>x\<close> run on the profile that \<open>x\<close> found. On the
  profile 3,3,3,3 a task of width 2 and height 5 stays unplaced and the profile is kept.
\<close>

theorem infeasible_task_left_unplaced:
  assumes "f \<in> {first_fit, next_fit, best_fit}"
    and "f pre step_function = Inr (pre', sf1)" and "\<forall>s. \<not> window_ok sf1 x s"
  shows "(\<exists>xs' sf2. f xs sf1 = Inr (xs', sf2) \<and>
            f (pre @ x # xs) step_function = Inr (pre' @ x # xs', sf2)) \<and>
         first_fit [mk_task 2 5] [3, 3, 3, 3] =
           Inr ([\<lparr>width = 2, height = 5, start_time = - 1, end_time = - 1\<rparr>], [3, 3, 3, 3])"
proof
  from assms(1) have "f = first_fit \<or> f = best_fit"
    by (auto simp only: next_fit_fun insert_iff empty_iff)
  then show "\<exists>xs' sf2. f xs sf1 = Inr (xs', sf2) \<and>
            f (pre @ x # xs) step_function = Inr (pre' @ x # xs', sf2)"
  proof
    assume "f = first_fit"
    with first_fit_skip[of pre step_function pre' sf1 x xs] assms(2,3) show ?thesis by simp
  next
    assume "f = best_fit"
    with best_fit_skip[of pre step_function pre' sf1 x xs] assms(2,3) show ?thesis by simp
  qed
next
  show "first_fit [mk_task 2 5] [3, 3, 3, 3] =
           Inr ([\<lparr>width = 2, height = 5, start_time = - 1, end_time = - 1\<rparr>], [3, 3, 3, 3])"
    by (simp add: first_fit_task_def mk_task_def)
qed

theorem infeasible_task_left_unplaced_witness:
  "next_fit \<in> {first_fit, next_fit, best_fit} \<and>
   next_fit [mk_task 2 3] [3, 3, 3, 3] =
     Inr ([\<lparr>width = 2, height = 3, start_time = 0, end_time = 1\<rparr>], [0, 0, 3, 3]) \<and>
   list_all (\<lambda>s. \<not> window_ok [0, 0, 3, 3] (mk_task 2 5) s) [0, 1, 2, 3] \<and>
   next_fit ([mk_task 2 3] @ mk_task 2 5 # [mk_task 1 1]) [3, 3, 3, 3] =
     Inr ([\<lparr>width = 2, height = 3, start_time = 0, end_time = 1\<rparr>] @ mk_task 2 5 #
          [\<lparr>width = 1, height = 1, start_time = 2, end_time = 2\<rparr>], [0, 0, 2, 3])"
proof -
  have a: "next_fit \<in> {first_fit, next_fit, best_fit}" by simp
  have b: "next_fit [mk_task 2 3] [3, 3, 3, 3] =
     Inr ([\<lparr>width = 2, height = 3, start_time = 0, end_time = 1\<rparr>], [0, 0, 3, 3])"
    by (simp add: next_fit_task_def slice_from_def slice_to_def mk_task_def
        sub_range.simps sub_at_def py_index_def)
  have c: "\<forall>s. \<not> window_ok [0, 0, 3, 3] (mk_task 2 5) s"
    by (simp add: window_ok_def mk_task_def drop_Cons' take_Cons')
  have d: "next_fit [mk_task 1 1] [0, 0, 3, 3] =
     Inr ([\<lparr>width = 1, height = 1, start_time = 2, end_time = 2\<rparr>], [0, 0, 2, 3])"
    by (simp add: next_fit_task_def slice_from_def slice_to_def mk_task_def
        sub_range.simps sub_at_def py_index_def)
  from infeasible_task_left_unplaced[OF a b c, of "[mk_task 1 1]"] a b c d
  show ?thesis by simp
qed

section \<open>The position that best-fit records\<close>

lemma best_fit_scan_best_pos:
  assumes "best_fit_scan x t rest t1 (- 1) cur 0 (- 1) = (a, b, c, m, p)"
    and "t = int (length pre)" and "0 \<le> cur" and "t1 = - 1 \<longrightarrow> cur = 0"
    and "t1 \<noteq> - 1 \<longrightarrow> 0 \<le> t1 \<and> t1 < t \<and>
           (t - t1 \<le> width x - 1 \<longrightarrow>
              (0 < cur \<longleftrightarrow> (\<exists>i. nat t1 \<le> i \<and> i < length pre \<and> height x < pre ! i)))"
    and "b \<noteq> - 1"
  shows "p = (if \<exists>i. nat a \<le> i \<and> i \<le> nat b \<and> height x < (pre @ rest) ! i then a else - 1)"
  using assms
proof (induction rest arbitrary: t t1 cur pre)
  case Nil
  then show ?case by simp
next
  case (Cons step rest)
  show ?case
  proof (cases "step < height x")
    case True
    with Cons.prems(1) have "best_fit_scan x (t + 1) rest (- 1) (- 1) 0 0 (- 1) = (a, b, c, m, p)"
      by simp
    from Cons.IH[OF this, of "pre @ [step]"] Cons.prems(2,6)
    show ?thesis by simp
  next
    case False
    define t1' where "t1' = (if t1 = - 1 then t else t1)"
    define cur1 where "cur1 = (if t1 = - 1 then cur + (step - height x) else cur)"
    have t1': "0 \<le> t1'" "t1' \<le> t" using Cons.prems(2,5) by (auto simp: t1'_def)
    have cur1: "0 \<le> cur1" using Cons.prems(3) False by (simp add: cur1_def)
    have ex_snoc: "(\<exists>i. nat t1' \<le> i \<and> i < length (pre @ [step]) \<and> height x < (pre @ [step]) ! i) \<longleftrightarrow>
        (\<exists>i. nat t1' \<le> i \<and> i < length pre \<and> height x < pre ! i) \<or> height x < step"
    proof
      assume "\<exists>i. nat t1' \<le> i \<and> i < length (pre @ [step]) \<and> height x < (pre @ [step]) ! i"
      then obtain i where i: "nat t1' \<le> i" "i < length (pre @ [step])"
        "height x < (pre @ [step]) ! i" by blast
      show "(\<exists>i. nat t1' \<le> i \<and> i < length pre \<and> height x < pre ! i) \<or> height x < step"
      proof (cases "i < length pre")
        case True
        with i have "nat t1' \<le> i \<and> i < length pre \<and> height x < pre ! i"
          by (simp add: nth_append)
        then show ?thesis by blast
      next
        case False
        with i(2) have "i = length pre" by simp
        with i(3) show ?thesis by simp
      qed
    next
      assume "(\<exists>i. nat t1' \<le> i \<and> i < length pre \<and> height x < pre ! i) \<or> height x < step"
      then show "\<exists>i. nat t1' \<le> i \<and> i < length (pre @ [step]) \<and> height x < (pre @ [step]) ! i"
      proof
        assume "\<exists>i. nat t1' \<le> i \<and> i < length pre \<and> height x < pre ! i"
        then obtain i where "nat t1' \<le> i \<and> i < length pre \<and> height x < pre ! i" by blast
        then have "nat t1' \<le> i \<and> i < length (pre @ [step]) \<and> height x < (pre @ [step]) ! i"
          by (simp add: nth_append)
        then show ?thesis by blast
      next
        assume "height x < step"
        moreover have "nat t1' \<le> length pre" using t1' Cons.prems(2) by simp
        ultimately have "nat t1' \<le> length pre \<and> length pre < length (pre @ [step]) \<and>
            height x < (pre @ [step]) ! length pre" by simp
        then show ?thesis by blast
      qed
    qed
    have rel: "0 < cur1 + (step - height x) \<longleftrightarrow>
        (\<exists>i. nat t1' \<le> i \<and> i < length (pre @ [step]) \<and> height x < (pre @ [step]) ! i)"
      if le: "t - t1' \<le> width x - 1"
    proof (cases "t1 = - 1")
      case True
      then have "t1' = t" "cur1 = step - height x"
        using Cons.prems(4) by (simp_all add: t1'_def cur1_def)
      moreover have "\<not> (\<exists>i. nat t \<le> i \<and> i < length pre \<and> height x < pre ! i)"
        using Cons.prems(2) by auto
      ultimately show ?thesis using ex_snoc False by auto
    next
      case neq: False
      then have e: "t1' = t1" "cur1 = cur" by (simp_all add: t1'_def cur1_def)
      with le neq Cons.prems(5)
      have "0 < cur \<longleftrightarrow> (\<exists>i. nat t1 \<le> i \<and> i < length pre \<and> height x < pre ! i)"
        by simp
      then show ?thesis using ex_snoc e False Cons.prems(3) by auto
    qed
    consider "t - t1' < width x - 1" | "t - t1' = width x - 1" | "t - t1' > width x - 1"
      by linarith
    then show ?thesis
    proof cases
      case 1
      with False Cons.prems(1)
      have sc: "best_fit_scan x (t + 1) rest t1' (- 1) (cur1 + (step - height x)) 0 (- 1) = (a, b, c, m, p)"
        by (simp add: t1'_def cur1_def Let_def)
      have "t1' \<noteq> - 1 \<longrightarrow> 0 \<le> t1' \<and> t1' < t + 1 \<and>
           (t + 1 - t1' \<le> width x - 1 \<longrightarrow>
              (0 < cur1 + (step - height x) \<longleftrightarrow>
                (\<exists>i. nat t1' \<le> i \<and> i < length (pre @ [step]) \<and> height x < (pre @ [step]) ! i)))"
        using rel 1 t1' by simp
      from Cons.IH[OF sc, of "pre @ [step]", OF _ _ _ this] Cons.prems(2,6) cur1 False t1'
      show ?thesis by simp
    next
      case 2
      with False have "best_fit_scan x t (step # rest) t1 (- 1) cur 0 (- 1) =
          (if 0 < cur1 + (step - height x)
           then (t1', t, cur1 + (step - height x), cur1 + (step - height x), t1')
           else (t1', t, cur1 + (step - height x), 0, - 1))"
        unfolding t1'_def cur1_def by (simp add: Let_def)
      with Cons.prems(1)
      have r: "a = t1'" "b = t" "p = (if 0 < cur1 + (step - height x) then t1' else - 1)"
        by (auto split: if_splits)
      have iff: "(\<exists>i. nat t1' \<le> i \<and> i \<le> nat t \<and> height x < (pre @ step # rest) ! i) \<longleftrightarrow>
            (\<exists>i. nat t1' \<le> i \<and> i < length (pre @ [step]) \<and> height x < (pre @ [step]) ! i)"
      proof -
        have nb: "nat t = length pre" using Cons.prems(2) by simp
        have eqn: "(pre @ step # rest) ! i = (pre @ [step]) ! i" if "i \<le> length pre" for i
          using that by (cases "i < length pre") (simp_all add: nth_append)
        have "(nat t1' \<le> i \<and> i \<le> length pre \<and> height x < (pre @ step # rest) ! i) \<longleftrightarrow>
              (nat t1' \<le> i \<and> i < length (pre @ [step]) \<and> height x < (pre @ [step]) ! i)" for i
          using eqn[of i] by (cases "i \<le> length pre") simp_all
        then show ?thesis unfolding nb by simp
      qed
      have le: "t - t1' \<le> width x - 1" using 2 by simp
      show ?thesis
        unfolding r(1) r(2) iff rel[OF le, symmetric] by (rule r(3))
    next
      case 3
      with False Cons.prems(1)
      have sc: "best_fit_scan x (t + 1) rest t1' (- 1) cur1 0 (- 1) = (a, b, c, m, p)"
        by (simp add: t1'_def cur1_def Let_def)
      have "t1' \<noteq> - 1 \<longrightarrow> 0 \<le> t1' \<and> t1' < t + 1 \<and>
           (t + 1 - t1' \<le> width x - 1 \<longrightarrow>
              (0 < cur1 \<longleftrightarrow>
                (\<exists>i. nat t1' \<le> i \<and> i < length (pre @ [step]) \<and> height x < (pre @ [step]) ! i)))"
        using 3 t1' by simp
      from Cons.IH[OF sc, of "pre @ [step]", OF _ _ _ this] Cons.prems(2,6) cur1 t1'
      show ?thesis by simp
    qed
  qed
qed

lemma window_set_nth:
  assumes "s + n \<le> length sf"
  shows "(\<exists>c\<in>set (take n (drop s sf)). P c) \<longleftrightarrow> (\<exists>i. s \<le> i \<and> i < s + n \<and> P (sf ! i))"
proof
  assume "\<exists>c\<in>set (take n (drop s sf)). P c"
  then obtain j where "j < n" "P (take n (drop s sf) ! j)"
    using assms by (auto simp: in_set_conv_nth)
  then have "s \<le> s + j \<and> s + j < s + n \<and> P (sf ! (s + j))" using assms by simp
  then show "\<exists>i. s \<le> i \<and> i < s + n \<and> P (sf ! i)" by blast
next
  assume "\<exists>i. s \<le> i \<and> i < s + n \<and> P (sf ! i)"
  then obtain i where i: "s \<le> i" "i < s + n" "P (sf ! i)" by blast
  then have "i - s < length (take n (drop s sf))" "take n (drop s sf) ! (i - s) = sf ! i"
    using assms by auto
  with i(3) show "\<exists>c\<in>set (take n (drop s sf)). P c"
    by (metis nth_mem)
qed

lemma best_fit_task_best_pos:
  "(best_fit_task x sf = Inr (x, sf) \<and> (\<forall>s. \<not> window_ok sf x s)) \<or>
   (\<exists>s p. window_ok sf x s \<and> (\<forall>s'<s. \<not> window_ok sf x s') \<and>
        p = (if \<exists>c\<in>set (take (nat (width x)) (drop s sf)). height x < c then int s else - 1) \<and>
        best_fit_task x sf =
          Inr (x\<lparr>start_time := p, end_time := p + width x - 1\<rparr>, subtract_window sf s x))"
proof -
  obtain a b c m p where bs: "best_fit_scan x 0 sf (- 1) (- 1) 0 0 (- 1) = (a, b, c, m, p)"
    using prod_cases5 by blast
  from best_fit_scan_scan[OF bs] have sc: "scan x 0 sf (- 1) (- 1) = (a, b)" .
  from scan_spec[OF sc] show ?thesis
  proof
    assume "b = - 1 \<and> (\<forall>s. \<not> window_ok sf x s)"
    then show ?thesis using bs by (simp add: best_fit_task_def)
  next
    assume h: "b \<noteq> - 1 \<and> 0 \<le> a \<and> b = a + width x - 1 \<and> window_ok sf x (nat a) \<and>
          (\<forall>s < nat a. \<not> window_ok sf x s)"
    then have a: "a = int (nat a)" "a \<noteq> - 1" by auto
    from h have w: "1 \<le> width x" "nat a + nat (width x) \<le> length sf"
      by (auto simp: window_ok_def)
    from best_fit_scan_best_pos[OF bs, of "[]"] h
    have p: "p = (if \<exists>i. nat a \<le> i \<and> i \<le> nat b \<and> height x < sf ! i then a else - 1)"
      by simp
    have "(nat a \<le> i \<and> i \<le> nat b \<and> height x < sf ! i) \<longleftrightarrow>
          (nat a \<le> i \<and> i < nat a + nat (width x) \<and> height x < sf ! i)" for i
      using h w(1) by (cases "i \<le> nat b") auto
    then have "(\<exists>i. nat a \<le> i \<and> i \<le> nat b \<and> height x < sf ! i) \<longleftrightarrow>
        (\<exists>c\<in>set (take (nat (width x)) (drop (nat a) sf)). height x < c)"
      unfolding window_set_nth[OF w(2)] by simp
    with p a(1)
    have p': "p = (if \<exists>c\<in>set (take (nat (width x)) (drop (nat a) sf)). height x < c
                   then int (nat a) else - 1)"
      by simp
    from h sub_range_window[of sf x "nat a"]
    have "sub_range a (b + 1) (height x) sf = Inr (subtract_window sf (nat a) x)" by simp
    then have "best_fit_task x sf =
       Inr (x\<lparr>start_time := p, end_time := p + width x - 1\<rparr>, subtract_window sf (nat a) x)"
      using bs h a by (simp add: best_fit_task_def)
    with p' h show ?thesis by blast
  qed
qed

text \<open>
  What \<^verbatim>\<open>best_fit\<close> does with a task, next to \<^verbatim>\<open>first_fit\<close>: the same profile, and the
  same task unless every slot of the window holds exactly the task's height; then
  \<open>best_pos\<close> is still \<open>- 1\<close> when the placement is written.
\<close>

lemma best_fit_task_first_fit_task:
  assumes "first_fit_task x sf = Inr (x1, sf1)"
  shows "best_fit_task x sf = Inr (x1, sf1) \<or>
         (best_fit_task x sf = Inr (x\<lparr>start_time := - 1, end_time := width x - 2\<rparr>, sf1) \<and>
          (\<exists>s. x1 = x\<lparr>start_time := int s, end_time := int s + width x - 1\<rparr> \<and>
               window_ok sf x s \<and>
               (\<forall>c\<in>set (take (nat (width x)) (drop s sf)). c = height x)))"
proof -
  from best_fit_task_best_pos[of x sf] show ?thesis
  proof (elim disjE exE conjE)
    assume "best_fit_task x sf = Inr (x, sf)" "\<forall>s. \<not> window_ok sf x s"
    with first_fit_task_no_window[of sf x] assms show ?thesis by simp
  next
    fix s p
    assume s: "window_ok sf x s" "\<forall>s'<s. \<not> window_ok sf x s'"
      and p: "p = (if \<exists>c\<in>set (take (nat (width x)) (drop s sf)). height x < c then int s else - 1)"
      and b: "best_fit_task x sf =
        Inr (x\<lparr>start_time := p, end_time := p + width x - 1\<rparr>, subtract_window sf s x)"
    from first_fit_task_spec[of x sf] s(1) obtain s0 where s0:
      "window_ok sf x s0" "\<forall>s'<s0. \<not> window_ok sf x s'"
      "first_fit_task x sf =
        Inr (x\<lparr>start_time := int s0, end_time := int s0 + width x - 1\<rparr>, subtract_window sf s0 x)"
      by blast
    have "s0 = s"
    proof (rule ccontr)
      assume "s0 \<noteq> s"
      then have "s0 < s \<or> s < s0" by linarith
      with s s0(1,2) show False by blast
    qed
    with s0(3) assms have x1: "x1 = x\<lparr>start_time := int s, end_time := int s + width x - 1\<rparr>"
      "sf1 = subtract_window sf s x" by simp_all
    show ?thesis
    proof (cases "\<exists>c\<in>set (take (nat (width x)) (drop s sf)). height x < c")
      case True
      with p b x1 show ?thesis by simp
    next
      case False
      with s(1) have "\<forall>c\<in>set (take (nat (width x)) (drop s sf)). c = height x"
        by (fastforce simp: window_ok_def)
      moreover from False p b x1(2)
      have "best_fit_task x sf = Inr (x\<lparr>start_time := - 1, end_time := width x - 2\<rparr>, sf1)"
        by simp
      ultimately show ?thesis using x1(1) s(1) by blast
    qed
  qed
qed

section \<open>Configurations outside the data model\<close>

lemma first_fit_no_windows:
  assumes "\<forall>x\<in>set tasks. \<forall>s. \<not> window_ok sf x s"
  shows "first_fit tasks sf = Inr (tasks, sf)"
proof -
  have step: "\<And>x sf'. \<forall>s. \<not> window_ok sf x s \<Longrightarrow> sf' = sf \<Longrightarrow>
      \<exists>x' sf''. first_fit_task x sf' = Inr (x', sf'') \<and> sf'' = sf \<and> x = x'"
    using first_fit_task_no_window by simp
  from task_loop_invariant[of first_fit first_fit_task "\<lambda>x. \<forall>s. \<not> window_ok sf x s"
      "\<lambda>sf'. sf' = sf" "(=)" tasks sf, OF first_fit_eqs step] assms
  show ?thesis by (auto simp: list_all2_eq[symmetric])
qed

lemma best_fit_no_windows:
  assumes "\<forall>x\<in>set tasks. \<forall>s. \<not> window_ok sf x s"
  shows "best_fit tasks sf = Inr (tasks, sf)"
proof -
  have step: "\<And>x sf'. \<forall>s. \<not> window_ok sf x s \<Longrightarrow> sf' = sf \<Longrightarrow>
      \<exists>x' sf''. best_fit_task x sf' = Inr (x', sf'') \<and> sf'' = sf \<and> x = x'"
    using best_fit_task_no_window by simp
  from task_loop_invariant[of best_fit best_fit_task "\<lambda>x. \<forall>s. \<not> window_ok sf x s"
      "\<lambda>sf'. sf' = sf" "(=)" tasks sf, OF best_fit_eqs step] assms
  show ?thesis by (auto simp: list_all2_eq[symmetric])
qed

lemma negative_height_window:
  assumes "height x < 0" and "1 \<le> width x" and "width x \<le> int (length sf)"
    and "\<forall>c\<in>set sf. 0 \<le> c"
  shows "window_ok sf x 0" and "\<exists>c\<in>set (take (nat (width x)) (drop 0 sf)). height x < c"
proof -
  have lt: "height x < c" if "c \<in> set sf" for c using assms(1,4) that by fastforce
  have "height x \<le> c" if "c \<in> set (take (nat (width x)) (drop 0 sf))" for c
    using lt[of c] that by (auto dest: in_set_takeD)
  then show "window_ok sf x 0"
    using assms(2,3) by (simp add: window_ok_def)
  from assms(2,3) have "sf \<noteq> []" "0 < nat (width x)" by auto
  then have "hd sf \<in> set (take (nat (width x)) sf)"
    by (cases sf; cases "nat (width x)") auto
  moreover have "height x < hd sf" using lt \<open>sf \<noteq> []\<close> by simp
  ultimately show "\<exists>c\<in>set (take (nat (width x)) (drop 0 sf)). height x < c" by auto
qed

lemma first_fit_negative_height:
  assumes "height x < 0" and "1 \<le> width x" and "width x \<le> int (length sf)"
    and "\<forall>c\<in>set sf. 0 \<le> c"
  shows "first_fit [x] sf = Inr ([x\<lparr>start_time := 0, end_time := width x - 1\<rparr>], subtract_window sf 0 x)"
proof -
  from first_fit_task_spec[of x sf] negative_height_window(1)[OF assms]
  obtain s where s: "\<forall>s'<s. \<not> window_ok sf x s'"
    "first_fit_task x sf =
       Inr (x\<lparr>start_time := int s, end_time := int s + width x - 1\<rparr>, subtract_window sf s x)"
    by blast
  from s(1) negative_height_window(1)[OF assms] have "s = 0" by (cases s) auto
  with s(2) show ?thesis by simp
qed

lemma best_fit_negative_height:
  assumes "height x < 0" and "1 \<le> width x" and "width x \<le> int (length sf)"
    and "\<forall>c\<in>set sf. 0 \<le> c"
  shows "best_fit [x] sf = Inr ([x\<lparr>start_time := 0, end_time := width x - 1\<rparr>], subtract_window sf 0 x)"
proof -
  from best_fit_task_best_pos[of x sf] negative_height_window(1)[OF assms]
  obtain s p where s: "\<forall>s'<s. \<not> window_ok sf x s'"
    "p = (if \<exists>c\<in>set (take (nat (width x)) (drop s sf)). height x < c then int s else - 1)"
    "best_fit_task x sf =
       Inr (x\<lparr>start_time := p, end_time := p + width x - 1\<rparr>, subtract_window sf s x)"
    by blast
  from s(1) negative_height_window(1)[OF assms] have "s = 0" by (cases s) auto
  with s(2) negative_height_window(2)[OF assms] have "p = 0" by simp
  with s(3) \<open>s = 0\<close> show ?thesis by simp
qed

text \<open>
  The heuristics return on configurations that the specification calls invalid: a
  negative height (the task is placed and the profile grows), a width of 0, an empty
  profile and an empty list of tasks.
\<close>

theorem invalid_configuration_counterexample:
  "first_fit [mk_task 1 (- 2)] [5] =
     Inr ([\<lparr>width = 1, height = - 2, start_time = 0, end_time = 0\<rparr>], [7]) \<and>
   best_fit [mk_task 0 1] [5] = Inr ([mk_task 0 1], [5]) \<and>
   next_fit [mk_task 1 1] [] = Inr ([mk_task 1 1], []) \<and>
   first_fit [] [5] = Inr ([], [5])"
  by (simp add: first_fit_task_def next_fit_task_def best_fit_task_def mk_task_def
      slice_from_def slice_to_def sub_range.simps sub_at_def py_index_def)

text \<open>
  Claim C7, as the code has it. The heuristics validate nothing and never fail: each returns for
  every list of tasks and every profile; an empty list of tasks leaves the profile as it
  is; on an empty profile, and when every width is at most 0, the tasks and the profile
  are returned as they are; a task of negative height on a non-negative profile that is
  long enough is placed at slot 0, and its window loses the (negative) height.
\<close>

theorem allocation_without_validation:
  assumes "f \<in> {first_fit, next_fit, best_fit}"
  shows "(\<exists>tasks' sf'. f tasks step_function = Inr (tasks', sf')) \<and>
         f [] step_function = Inr ([], step_function) \<and>
         f tasks [] = Inr (tasks, []) \<and>
         ((\<forall>x\<in>set tasks. width x \<le> 0) \<longrightarrow> f tasks step_function = Inr (tasks, step_function)) \<and>
         (height x < 0 \<and> 1 \<le> width x \<and> width x \<le> int (length step_function) \<and>
          (\<forall>c\<in>set step_function. 0 \<le> c) \<longrightarrow>
            f [x] step_function =
              Inr ([x\<lparr>start_time := 0, end_time := width x - 1\<rparr>], subtract_window step_function 0 x))"
proof -
  have e: "\<forall>x\<in>set tasks. \<forall>s. \<not> window_ok [] x s"
    by (simp add: window_ok_def)
  have n: "\<forall>x\<in>set tasks. \<forall>s. \<not> window_ok step_function x s" if "\<forall>x\<in>set tasks. width x \<le> 0"
    using that by (auto simp: window_ok_def)
  from assms have "f = first_fit \<or> f = best_fit"
    by (auto simp only: next_fit_fun insert_iff empty_iff)
  then show ?thesis
  proof
    assume f: "f = first_fit"
    show ?thesis unfolding f
      using first_fit_Inr[of tasks step_function] first_fit_no_windows[OF e]
        first_fit_no_windows[OF n] first_fit_negative_height[of x step_function]
      by simp
  next
    assume f: "f = best_fit"
    show ?thesis unfolding f
      using best_fit_Inr[of tasks step_function] best_fit_no_windows[OF e]
        best_fit_no_windows[OF n] best_fit_negative_height[of x step_function]
      by simp
  qed
qed

theorem allocation_without_validation_witness:
  "best_fit \<in> {first_fit, next_fit, best_fit} \<and>
   list_all (\<lambda>x. width x \<le> 0) [mk_task 0 1, mk_task (- 3) 2] \<and>
   best_fit [mk_task 0 1, mk_task (- 3) 2] [4, 5] = Inr ([mk_task 0 1, mk_task (- 3) 2], [4, 5]) \<and>
   best_fit [mk_task 0 1, mk_task (- 3) 2] [] = Inr ([mk_task 0 1, mk_task (- 3) 2], []) \<and>
   best_fit [] [4, 5] = Inr ([], [4, 5]) \<and>
   height (mk_task 2 (- 3)) < 0 \<and> 1 \<le> width (mk_task 2 (- 3)) \<and>
   width (mk_task 2 (- 3)) \<le> int (length [4, 5 :: int]) \<and> list_all (\<lambda>c. 0 \<le> c) [4, 5 :: int] \<and>
   best_fit [mk_task 2 (- 3)] [4, 5] =
     Inr ([\<lparr>width = 2, height = - 3, start_time = 0, end_time = 1\<rparr>], [7, 8])"
proof -
  have a: "best_fit \<in> {first_fit, next_fit, best_fit}" by simp
  have b: "\<forall>x\<in>set [mk_task 0 1, mk_task (- 3) 2]. width x \<le> 0" by (simp add: mk_task_def)
  have c: "height (mk_task 2 (- 3)) < 0 \<and> 1 \<le> width (mk_task 2 (- 3)) \<and>
      width (mk_task 2 (- 3)) \<le> int (length [4, 5 :: int]) \<and> (\<forall>c\<in>set [4, 5 :: int]. 0 \<le> c)"
    by (simp add: mk_task_def)
  from allocation_without_validation[OF a, of "[mk_task 0 1, mk_task (- 3) 2]" "[4, 5]" "mk_task 2 (- 3)"]
    a b c
  show ?thesis by (simp add: subtract_window_def mk_task_def)
qed

section \<open>Best-fit, next-fit and the sort on concrete inputs\<close>

text \<open>
  Claim C1. On the profile 5,5,5,0,0,5,5,5 and one task of width 3 and height 5,
  \<^verbatim>\<open>first_fit\<close> and \<^verbatim>\<open>best_fit\<close> subtract on the same window 0..2, but \<^verbatim>\<open>first_fit\<close>
  records the placement 0, 2 and \<^verbatim>\<open>best_fit\<close> records - 1, 1: the slack of the window is
  0, which is not greater than the initial \<open>max_area\<close>, so \<open>best_pos\<close> is never set.
\<close>

theorem best_fit_differs_from_first_fit:
  "first_fit [mk_task 3 5] [5, 5, 5, 0, 0, 5, 5, 5] =
     Inr ([\<lparr>width = 3, height = 5, start_time = 0, end_time = 2\<rparr>], [0, 0, 0, 0, 0, 5, 5, 5]) \<and>
   best_fit [mk_task 3 5] [5, 5, 5, 0, 0, 5, 5, 5] =
     Inr ([\<lparr>width = 3, height = 5, start_time = - 1, end_time = 1\<rparr>], [0, 0, 0, 0, 0, 5, 5, 5])"
  by (simp add: first_fit_task_def best_fit_task_def mk_task_def
      sub_range.simps sub_at_def py_index_def)

text \<open>
  Claim C2. On the profile 5,5,5,5 and two tasks of width 1 and height 2, the first
  iteration of \<^verbatim>\<open>next_fit\<close> places its task at slot 0 and leaves \<open>it_begin = 1\<close>; the
  second task is placed at slot 0 again, not at slot 1: its scan starts at slot 0.
\<close>

theorem next_fit_restarts_at_slot_0:
  "next_fit_task (mk_task 1 2) [5, 5, 5, 5] =
     Inr (\<lparr>width = 1, height = 2, start_time = 0, end_time = 0\<rparr>, [3, 5, 5, 5], 1) \<and>
   next_fit [mk_task 1 2, mk_task 1 2] [5, 5, 5, 5] =
     Inr ([\<lparr>width = 1, height = 2, start_time = 0, end_time = 0\<rparr>,
           \<lparr>width = 1, height = 2, start_time = 0, end_time = 0\<rparr>], [1, 5, 5, 5])"
  by (simp add: next_fit_task_def slice_from_def slice_to_def mk_task_def
      sub_range.simps sub_at_def py_index_def)

text \<open>
  The sort of the evaluation loop is ascending in its key.
\<close>

lemma sort_tasks_ascending:
  "sorted (map sort_by_width (sort_tasks ''width'' tasks)) \<and>
   sorted (map sort_by_height (sort_tasks ''height'' tasks)) \<and>
   sorted (map sort_by_area (sort_tasks ''area'' tasks))"
  by (simp add: sort_tasks_def)

text \<open>
  Claim C9. The sort of the evaluation loop puts the smaller key first: for each of the
  three orders, two tasks given in descending order of the key come back in ascending
  order.
\<close>

theorem sort_tasks_is_ascending:
  "sort_tasks ''width'' [mk_task 2 1, mk_task 1 3] = [mk_task 1 3, mk_task 2 1] \<and>
   sort_tasks ''height'' [mk_task 1 3, mk_task 2 1] = [mk_task 2 1, mk_task 1 3] \<and>
   sort_tasks ''area'' [mk_task 1 3, mk_task 2 1] = [mk_task 2 1, mk_task 1 3]"
  by (simp add: sort_tasks_def sort_by_width_def sort_by_height_def sort_by_area_def mk_task_def)

section \<open>The efficacy of a trial\<close>





end
